theory Spec2Isabelle
  imports Main "HOL-Library.Sublist"
begin

section \<open>Python string operations used by the script\<close>

text \<open>
  The script \<^verbatim>\<open>list_github_workflow_and_dependency_files.py\<close> works on Python
  \<^verbatim>\<open>str\<close> values with \<^verbatim>\<open>rstrip\<close>, \<^verbatim>\<open>split\<close>, \<^verbatim>\<open>replace\<close>, \<^verbatim>\<open>startswith\<close>,
  \<^verbatim>\<open>endswith\<close> and the \<^verbatim>\<open>in\<close> test on a list. Strings are modelled as \<^typ>\<open>string\<close>.
\<close>

text \<open>\<^verbatim>\<open>s.rstrip(chars)\<close>: drop every trailing character that occurs in \<open>chars\<close>.\<close>

definition rstrip :: "string \<Rightarrow> string \<Rightarrow> string" where
  "rstrip chars s = rev (dropWhile (\<lambda>c. c \<in> set chars) (rev s))"

text \<open>
  \<^verbatim>\<open>s.split(sep)\<close> for a separator of one character: the pieces between the
  separators, empty pieces kept; the result is never the empty list.
\<close>

fun split_sep :: "char \<Rightarrow> string \<Rightarrow> string list" where
  "split_sep sep [] = [[]]"
| "split_sep sep (c # cs) =
     (if c = sep then [] # split_sep sep cs
      else (case split_sep sep cs of
              [] \<Rightarrow> [[c]]
            | w # ws \<Rightarrow> (c # w) # ws))"

text \<open>
  \<^verbatim>\<open>s.replace(old, new)\<close>: every non-overlapping occurrence of \<open>old\<close>, found from the
  left, is replaced; an empty \<open>old\<close> matches before every character and at the end.
\<close>

function replace :: "string \<Rightarrow> string \<Rightarrow> string \<Rightarrow> string" where
  "replace old new [] = (if old = [] then new else [])"
| "replace old new (c # cs) =
     (if old = [] then new @ c # replace old new cs
      else if prefix old (c # cs) then new @ replace old new (drop (length old) (c # cs))
      else c # replace old new cs)"
  by pat_completeness auto
termination
  by (relation "measure (\<lambda>(old, new, s). length s)") auto

text \<open>\<^verbatim>\<open>s.startswith(p)\<close> and \<^verbatim>\<open>s.endswith((p1, p2, ...))\<close>, both case-sensitive.\<close>

definition startswith :: "string \<Rightarrow> string \<Rightarrow> bool" where
  "startswith s p = prefix p s"

definition endswith :: "string \<Rightarrow> string list \<Rightarrow> bool" where
  "endswith s ps = list_ex (\<lambda>p. suffix p s) ps"

text \<open>\<^verbatim>\<open>sep.join(parts)\<close> for the separator \<^verbatim>\<open>/\<close>.\<close>

fun slash_join :: "string list \<Rightarrow> string" where
  "slash_join [] = []"
| "slash_join [p] = p"
| "slash_join (p # q # ps) = p @ CHR ''/'' # slash_join (q # ps)"

section \<open>The module constants\<close>

text \<open>
  \<^verbatim>\<open>REPO_NAME = REPO_URL.rstrip("/").split("/")[-1].replace(".git", "")\<close>.
  The list returned by \<^verbatim>\<open>split\<close> is never empty, so the index \<^verbatim>\<open>[-1]\<close> cannot fail.
\<close>

definition REPO_NAME :: "string \<Rightarrow> string" where
  "REPO_NAME REPO_URL =
     replace ''.git'' '''' (last (split_sep CHR ''/'' (rstrip ''/'' REPO_URL)))"

definition DEPENDENCY_FILES :: "string list" where
  "DEPENDENCY_FILES =
     [''package.json'', ''requirements.txt'', ''Pipfile'',
      ''yarn.lock'', ''poetry.lock'', ''Gemfile'', ''composer.json'',
      ''Cargo.toml'', ''go.mod'', ''environment.yml'', ''env.yml'', ''setup.py'']"

definition WORKFLOW_DIR :: string where
  "WORKFLOW_DIR = ''.github/workflows''"

section \<open>The file system as the script sees it\<close>

text \<open>
  A directory holds the names of its non-directory entries and its sub-directories, each
  in the order in which \<^verbatim>\<open>os.scandir\<close> lists them. A symbolic link to a directory is
  listed by \<^verbatim>\<open>os.walk\<close> among the directory names but not entered, and an unreadable
  directory is skipped silently (\<^verbatim>\<open>onerror=None\<close>): both contribute no file and are
  left out of the tree.
\<close>

datatype tree = Dir (files: "string list") (subdirs: "(string \<times> tree) list")

text \<open>
  \<^verbatim>\<open>os.path.join(a, b)\<close> of \<^verbatim>\<open>posixpath\<close>: an absolute \<open>b\<close> replaces \<open>a\<close>; otherwise
  \<open>b\<close> is appended, after a separator unless \<open>a\<close> is empty or already ends in one.
\<close>

definition os_path_join :: "string \<Rightarrow> string \<Rightarrow> string" where
  "os_path_join a b =
     (if startswith b ''/'' then b
      else if a = [] \<or> endswith a [''/''] then a @ b
      else a @ ''/'' @ b)"

text \<open>
  \<^verbatim>\<open>os.walk(topdir)\<close>, top-down: the triple of a directory comes first, then the walks of
  its sub-directories in listing order, each rooted at \<^verbatim>\<open>os.path.join(topdir, name)\<close>.
\<close>

fun walk :: "string \<Rightarrow> tree \<Rightarrow> (string \<times> string list \<times> string list) list"
  and walk_subdirs :: "string \<Rightarrow> (string \<times> tree) list \<Rightarrow> (string \<times> string list \<times> string list) list"
where
  "walk topdir (Dir fs ds) = (topdir, map fst ds, fs) # walk_subdirs topdir ds"
| "walk_subdirs topdir [] = []"
| "walk_subdirs topdir ((d, t) # ds) = walk (os_path_join topdir d) t @ walk_subdirs topdir ds"

text \<open>
  \<^verbatim>\<open>os.path.abspath(p)\<close> is \<^verbatim>\<open>normpath(join(os.getcwd(), p))\<close>. The working directory is
  always absolute, so the model keeps it as the list of its components, and the
  normalised absolute path as the list of components that \<^verbatim>\<open>normpath\<close> collects in
  \<^verbatim>\<open>new_comps\<close>: empty components and \<^verbatim>\<open>.\<close> are skipped, \<^verbatim>\<open>..\<close> pops the last
  component and is dropped at the root.
\<close>

fun normpath_step :: "string list \<Rightarrow> string \<Rightarrow> string list" where
  "normpath_step new_comps part =
     (if part = [] \<or> part = ''.'' then new_comps
      else if part \<noteq> ''..'' then new_comps @ [part]
      else butlast new_comps)"

definition abspath_list :: "string list \<Rightarrow> string \<Rightarrow> string list" where
  "abspath_list cwd p =
     foldl normpath_step []
       (if startswith p ''/'' then split_sep CHR ''/'' p else cwd @ split_sep CHR ''/'' p)"

text \<open>\<^verbatim>\<open>os.path.commonprefix\<close> on two component lists: their longest common prefix.\<close>

fun commonprefix :: "string list \<Rightarrow> string list \<Rightarrow> string list" where
  "commonprefix (x # xs) (y # ys) = (if x = y then x # commonprefix xs ys else [])"
| "commonprefix [] ys = []"
| "commonprefix xs [] = []"

text \<open>
  \<^verbatim>\<open>os.path.relpath(path, start)\<close>: \<^verbatim>\<open>ValueError\<close> (here \<open>None\<close>) on an empty path;
  otherwise one \<^verbatim>\<open>..\<close> for every component of \<open>start\<close> beyond the common prefix, then
  the rest of \<open>path\<close>, joined by the separator, or \<^verbatim>\<open>.\<close> when nothing is left.
\<close>

definition os_path_relpath :: "string list \<Rightarrow> string \<Rightarrow> string \<Rightarrow> string option" where
  "os_path_relpath cwd path start =
     (if path = [] then None
      else
        let start_list = abspath_list cwd start;
            path_list = abspath_list cwd path;
            i = length (commonprefix start_list path_list);
            rel_list = replicate (length start_list - i) ''..'' @ drop i path_list
        in Some (if rel_list = [] then ''.'' else slash_join rel_list))"

section \<open>The tree walk and its two tests\<close>

record lists =
  workflow_files :: "string list"
  dependency_files :: "string list"

text \<open>The body of the inner loop, for one \<open>file\<close> of the directory \<open>root\<close>.\<close>

definition classify_file :: "string list \<Rightarrow> string \<Rightarrow> string \<Rightarrow> string \<Rightarrow> lists \<Rightarrow> lists option" where
  "classify_file cwd topdir root file acc =
     (case os_path_relpath cwd (os_path_join root file) topdir of
        None \<Rightarrow> None
      | Some rel_path \<Rightarrow>
          let acc1 =
                (if startswith rel_path WORKFLOW_DIR \<and> endswith file [''.yml'', ''.yaml'']
                 then acc\<lparr>workflow_files := workflow_files acc @ [rel_path]\<rparr>
                 else acc);
              acc2 =
                (if file \<in> set DEPENDENCY_FILES
                 then acc1\<lparr>dependency_files := dependency_files acc1 @ [rel_path]\<rparr>
                 else acc1)
          in Some acc2)"

text \<open>\<^verbatim>\<open>for file in files\<close>.\<close>

fun classify_files :: "string list \<Rightarrow> string \<Rightarrow> string \<Rightarrow> string list \<Rightarrow> lists \<Rightarrow> lists option" where
  "classify_files cwd topdir root [] acc = Some acc"
| "classify_files cwd topdir root (file # rest) acc =
     (case classify_file cwd topdir root file acc of
        None \<Rightarrow> None
      | Some acc' \<Rightarrow> classify_files cwd topdir root rest acc')"

text \<open>\<^verbatim>\<open>for root, dirs, files in os.walk(REPO_NAME)\<close>.\<close>

fun classify_walk :: "string list \<Rightarrow> string \<Rightarrow> (string \<times> string list \<times> string list) list \<Rightarrow> lists \<Rightarrow> lists option" where
  "classify_walk cwd topdir [] acc = Some acc"
| "classify_walk cwd topdir ((root, dirs, fs) # rest) acc =
     (case classify_files cwd topdir root fs acc of
        None \<Rightarrow> None
      | Some acc' \<Rightarrow> classify_walk cwd topdir rest acc')"

text \<open>Both sequences start empty; \<open>classify\<close> is the whole traversal of one tree.\<close>

definition classify :: "string list \<Rightarrow> string \<Rightarrow> tree \<Rightarrow> lists option" where
  "classify cwd topdir t =
     classify_walk cwd topdir (walk topdir t) \<lparr>workflow_files = [], dependency_files = []\<rparr>"

section \<open>The report\<close>

text \<open>
  The output is the list of the strings handed to \<^verbatim>\<open>print\<close>, one element for each call
  (\<^verbatim>\<open>print\<close> ends each with a newline).
\<close>

definition report_section :: "string \<Rightarrow> string list \<Rightarrow> string list" where
  "report_section title paths =
     title # (if paths \<noteq> [] then map (\<lambda>p. ''  - '' @ p) paths else [''  (none found)''])"

definition report :: "lists \<Rightarrow> string list" where
  "report ls =
     report_section (CHR 0x0A # ''Workflow files found:'') (workflow_files ls) @
     report_section (CHR 0x0A # ''Dependency files found:'') (dependency_files ls)"

section \<open>The whole run\<close>

text \<open>
  What the script reads from its environment: the argument vector, whether a path
  exists when \<^verbatim>\<open>os.path.exists\<close> asks, the return code of a \<^verbatim>\<open>git\<close> command (the command
  is taken to start; the script waits for it), the working directory, and the directory
  tree found at a path when the walk begins (\<open>None\<close> when there is no directory to list).
\<close>

record world =
  argv :: "string list"
  path_exists :: "string \<Rightarrow> bool"
  returncode :: "string list \<Rightarrow> int"
  getcwd :: "string list"
  tree_at :: "string \<Rightarrow> tree option"

text \<open>
  What a run leaves behind: the exit status, the printed lines, the commands handed to
  \<^verbatim>\<open>subprocess.run\<close>, and whether the run ended in an uncaught exception (status 1 with a
  traceback on the error stream).
\<close>

record outcome =
  exit_status :: int
  stdout :: "string list"
  subprocesses :: "string list list"
  uncaught :: bool

definition usage_line :: string where
  "usage_line = ''Usage: python list_github_workflow_and_dependency_files.py <repo_url>''"

text \<open>
  \<^verbatim>\<open>os.walk(topdir)\<close> on the environment: listing the empty path fails, and so does listing
  a path that is no directory; the walk then yields nothing.
\<close>

definition os_walk :: "world \<Rightarrow> string \<Rightarrow> (string \<times> string list \<times> string list) list" where
  "os_walk w topdir =
     (if topdir = [] then []
      else case tree_at w topdir of None \<Rightarrow> [] | Some t \<Rightarrow> walk topdir t)"

text \<open>The part of the script after the clone or pull has succeeded.\<close>

definition scan_and_report :: "world \<Rightarrow> string \<Rightarrow> string list \<Rightarrow> string list list \<Rightarrow> outcome" where
  "scan_and_report w name out cmds =
     (case classify_walk (getcwd w) name (os_walk w name)
             \<lparr>workflow_files = [], dependency_files = []\<rparr> of
        None \<Rightarrow> \<lparr>exit_status = 1, stdout = out, subprocesses = cmds, uncaught = True\<rparr>
      | Some ls \<Rightarrow>
          \<lparr>exit_status = 0, stdout = out @ report ls, subprocesses = cmds, uncaught = False\<rparr>)"

definition main :: "world \<Rightarrow> outcome" where
  "main w =
     (let REPO_URL = (if length (argv w) > 1 then Some (argv w ! 1) else None) in
      case REPO_URL of
        None \<Rightarrow>
          \<lparr>exit_status = 1, stdout = [usage_line], subprocesses = [], uncaught = False\<rparr>
      | Some url \<Rightarrow>
          if url = [] then
            \<lparr>exit_status = 1, stdout = [usage_line], subprocesses = [], uncaught = False\<rparr>
          else
            let name = REPO_NAME url in
            if \<not> path_exists w name then
              let out = [''Cloning repository '' @ url @ '' ...''];
                  cmd = [''git'', ''clone'', ''--depth'', ''1'', url]
              in if returncode w cmd \<noteq> 0 then
                   \<lparr>exit_status = 2, stdout = out @ [''Failed to clone repository.''],
                    subprocesses = [cmd], uncaught = False\<rparr>
                 else scan_and_report w name out [cmd]
            else
              let out = [''Repository '' @ name @ '' already exists. Pulling latest changes ...''];
                  cmd = [''git'', ''-C'', name, ''pull'']
              in if returncode w cmd \<noteq> 0 then
                   \<lparr>exit_status = 3, stdout = out @ [''Failed to pull latest changes.''],
                    subprocesses = [cmd], uncaught = False\<rparr>
                 else scan_and_report w name out [cmd])"

section \<open>Vocabulary for the statements\<close>

text \<open>
  The name the specification describes: the last segment of the URL, trailing slashes
  discarded, with a \<^verbatim>\<open>.git\<close> suffix, and only a suffix, removed. It is compared with
  \<^const>\<open>REPO_NAME\<close> below.
\<close>

definition strip_git_suffix :: "string \<Rightarrow> string" where
  "strip_git_suffix s = (if suffix ''.git'' s then take (length s - 4) s else s)"

definition local_name_spec :: "string \<Rightarrow> string" where
  "local_name_spec url = strip_git_suffix (last (split_sep CHR ''/'' (rstrip ''/'' url)))"

text \<open>
  A directory entry has a name that is not empty, holds no separator and is neither
  \<^verbatim>\<open>.\<close> nor \<^verbatim>\<open>..\<close>; the names within one directory differ from each other.
\<close>

definition valid_name :: "string \<Rightarrow> bool" where
  "valid_name n = (n \<noteq> [] \<and> CHR ''/'' \<notin> set n \<and> n \<noteq> ''.'' \<and> n \<noteq> ''..'')"

fun wf_tree :: "tree \<Rightarrow> bool"
  and wf_subdirs :: "(string \<times> tree) list \<Rightarrow> bool"
where
  "wf_tree (Dir fs ds) = (list_all valid_name fs \<and> distinct (fs @ map fst ds) \<and> wf_subdirs ds)"
| "wf_subdirs [] = True"
| "wf_subdirs ((d, t) # ds) = (valid_name d \<and> wf_tree t \<and> wf_subdirs ds)"

text \<open>
  The files of a tree, each as the list of its path components below the root of the
  tree, in the order of the walk; \<open>rel_paths\<close> writes each as a relative path.
\<close>

fun tree_paths :: "tree \<Rightarrow> string list list"
  and subdir_paths :: "(string \<times> tree) list \<Rightarrow> string list list"
where
  "tree_paths (Dir fs ds) = map (\<lambda>f. [f]) fs @ subdir_paths ds"
| "subdir_paths [] = []"
| "subdir_paths ((d, t) # ds) = map ((#) d) (tree_paths t) @ subdir_paths ds"

definition rel_paths :: "tree \<Rightarrow> string list" where
  "rel_paths t = map slash_join (tree_paths t)"

text \<open>The final component of a path.\<close>

definition filename :: "string \<Rightarrow> string" where
  "filename p = last (split_sep CHR ''/'' p)"

text \<open>The two tests of the loop body, read as properties of the relative path alone.\<close>

definition workflow_rule :: "string \<Rightarrow> bool" where
  "workflow_rule p = (startswith p WORKFLOW_DIR \<and> endswith (filename p) [''.yml'', ''.yaml''])"

definition dependency_rule :: "string \<Rightarrow> bool" where
  "dependency_rule p = (filename p \<in> set DEPENDENCY_FILES)"

definition extend :: "lists \<Rightarrow> string list \<Rightarrow> lists" where
  "extend acc ps =
     \<lparr>workflow_files = workflow_files acc @ filter workflow_rule ps,
      dependency_files = dependency_files acc @ filter dependency_rule ps\<rparr>"

text \<open>Concrete inputs for the instances below.\<close>

definition example_tree :: tree where
  "example_tree =
     Dir [''README.md'', ''package.json'']
       [(''.github'',
           Dir [''workflowsfoo.yml'']
             [(''workflows'',
                 Dir [''ci.yml'', ''notes.txt'', ''go.mod'', ''environment.yml'', ''ci.YML''] []),
              (''workflows-old'', Dir [''ci.yml''] [])]),
        (''sub'', Dir [] [(''dir'', Dir [''package.json''] [])])]"

definition small_tree :: tree where
  "small_tree =
     Dir [''package.json'']
       [(''.github'', Dir [] [(''workflows'', Dir [''ci.yml'', ''go.mod''] [])])]"

definition example_world :: "string list \<Rightarrow> bool \<Rightarrow> int \<Rightarrow> world" where
  "example_world args present rc =
     \<lparr>argv = args, path_exists = (\<lambda>_. present), returncode = (\<lambda>_. rc),
      getcwd = [''home'', ''user''], tree_at = (\<lambda>_. Some example_tree)\<rparr>"

section \<open>Strings and paths\<close>

lemma split_sep_nonempty: "split_sep c s \<noteq> []"
  by (induction s) (auto split: list.splits)

lemma split_sep_no_sep: "c \<notin> set a \<Longrightarrow> split_sep c a = [a]"
  by (induction a) auto

lemma split_sep_append: "c \<notin> set a \<Longrightarrow> split_sep c (a @ c # b) = a # split_sep c b"
  by (induction a) auto

lemma slash_join_snoc: "ps \<noteq> [] \<Longrightarrow> slash_join (ps @ [f]) = slash_join ps @ CHR ''/'' # f"
  by (induction ps rule: slash_join.induct) auto

lemma slash_join_Cons: "ps \<noteq> [] \<Longrightarrow> slash_join (p # ps) = p @ CHR ''/'' # slash_join ps"
  by (cases ps) auto

lemma split_sep_slash_join:
  "ps \<noteq> [] \<Longrightarrow> \<forall>p \<in> set ps. CHR ''/'' \<notin> set p \<Longrightarrow> split_sep CHR ''/'' (slash_join ps) = ps"
  by (induction ps rule: slash_join.induct) (auto simp: split_sep_no_sep split_sep_append)

lemma slash_join_last:
  "ps \<noteq> [] \<Longrightarrow> last ps \<noteq> [] \<Longrightarrow> slash_join ps \<noteq> [] \<and> last (slash_join ps) = last (last ps)"
  by (induction ps rule: slash_join.induct) auto

lemma suffix_single: "suffix [c] a \<longleftrightarrow> a \<noteq> [] \<and> last a = c"
  by (cases a rule: rev_cases) (auto simp: suffix_def)

lemma prefix_single: "prefix [c] a \<longleftrightarrow> a \<noteq> [] \<and> hd a = c"
  by (cases a) auto

lemma os_path_join_slash_join:
  assumes "ps \<noteq> []" and "\<forall>p \<in> set ps. p \<noteq> [] \<and> CHR ''/'' \<notin> set p"
    and "f \<noteq> []" and "CHR ''/'' \<notin> set f"
  shows "os_path_join (slash_join ps) f = slash_join (ps @ [f])"
proof -
  from assms(1,2) have l: "last ps \<noteq> []" "CHR ''/'' \<notin> set (last ps)"
    using last_in_set by blast+
  with assms(1) slash_join_last [of ps]
  have n: "slash_join ps \<noteq> []" and e: "last (slash_join ps) = last (last ps)" by auto
  from l have "last (last ps) \<noteq> CHR ''/''" using last_in_set by metis
  with e have "\<not> suffix ''/'' (slash_join ps)" by (simp add: suffix_single)
  moreover from assms(3,4) have "\<not> prefix ''/'' f" by (cases f) auto
  ultimately show ?thesis
    using n assms(1) by (simp add: os_path_join_def startswith_def endswith_def slash_join_snoc)
qed

lemma foldl_normpath_step_valid:
  "list_all valid_name comps \<Longrightarrow> foldl normpath_step acc comps = acc @ comps"
  by (induction comps arbitrary: acc) (auto simp: valid_name_def)

lemma commonprefix_append: "commonprefix xs (xs @ ys) = xs"
  by (induction xs) auto

lemma abspath_list_below:
  assumes t: "topdir \<noteq> []" "CHR ''/'' \<notin> set topdir" and c: "list_all valid_name comps"
  shows "abspath_list cwd (slash_join (topdir # comps)) = abspath_list cwd topdir @ comps"
proof -
  from c have ns: "\<forall>p \<in> set (topdir # comps). CHR ''/'' \<notin> set p"
    using t by (auto simp: list_all_iff valid_name_def)
  then have s: "split_sep CHR ''/'' (slash_join (topdir # comps)) = topdir # comps"
    by (intro split_sep_slash_join) auto
  have s0: "split_sep CHR ''/'' topdir = [topdir]" using t by (simp add: split_sep_no_sep)
  have h: "hd (slash_join (topdir # comps)) = hd topdir" "slash_join (topdir # comps) \<noteq> []"
    using t by (cases comps; cases topdir; simp)+
  from t have "hd topdir \<noteq> CHR ''/''" by (cases topdir) auto
  with h t have np: "\<not> prefix ''/'' (slash_join (topdir # comps))" "\<not> prefix ''/'' topdir"
    by (simp_all add: prefix_single)
  show ?thesis
    using np s s0 c by (simp add: abspath_list_def startswith_def foldl_normpath_step_valid)
qed

lemma os_path_relpath_below:
  assumes t: "topdir \<noteq> []" "CHR ''/'' \<notin> set topdir" and c: "list_all valid_name comps"
    and ne: "comps \<noteq> []"
  shows "os_path_relpath cwd (slash_join (topdir # comps)) topdir = Some (slash_join comps)"
proof -
  have "slash_join (topdir # comps) \<noteq> []" using t by (cases comps) auto
  then show ?thesis
    using abspath_list_below [OF t c, of cwd] ne
    by (simp add: os_path_relpath_def Let_def commonprefix_append)
qed


section \<open>The walk as a filter of the relative paths\<close>

lemma extend_Nil: "extend acc [] = acc"
  by (simp add: extend_def)

lemma extend_extend: "extend (extend acc ps) qs = extend acc (ps @ qs)"
  by (simp add: extend_def)

lemma filename_slash_join:
  "list_all valid_name pre \<Longrightarrow> valid_name f \<Longrightarrow> filename (slash_join (pre @ [f])) = f"
  using split_sep_slash_join [of "pre @ [f]"]
  by (auto simp: filename_def list_all_iff valid_name_def)

lemma classify_file_valid:
  assumes t: "topdir \<noteq> []" "CHR ''/'' \<notin> set topdir"
    and p: "list_all valid_name pre" and f: "valid_name f"
  shows "classify_file cwd topdir (slash_join (topdir # pre)) f acc =
           Some (extend acc [slash_join (pre @ [f])])"
proof -
  have j: "os_path_join (slash_join (topdir # pre)) f = slash_join (topdir # pre @ [f])"
    using os_path_join_slash_join [of "topdir # pre" f] t p f
    by (auto simp: list_all_iff valid_name_def)
  have r: "os_path_relpath cwd (slash_join (topdir # pre @ [f])) topdir =
             Some (slash_join (pre @ [f]))"
    using os_path_relpath_below [OF t, of "pre @ [f]" cwd] p f by simp
  show ?thesis
    using filename_slash_join [OF p f]
    by (simp add: classify_file_def j r extend_def workflow_rule_def dependency_rule_def)
qed

lemma classify_files_valid:
  assumes t: "topdir \<noteq> []" "CHR ''/'' \<notin> set topdir" and p: "list_all valid_name pre"
  shows "list_all valid_name fs \<Longrightarrow>
         classify_files cwd topdir (slash_join (topdir # pre)) fs acc =
           Some (extend acc (map (\<lambda>f. slash_join (pre @ [f])) fs))"
proof (induction fs arbitrary: acc)
  case Nil
  then show ?case by (simp add: extend_Nil)
next
  case (Cons f fs)
  then show ?case
    by (simp add: classify_file_valid [OF t p] extend_extend)
qed

lemma classify_walk_append:
  "classify_walk cwd topdir (xs @ ys) acc =
     (case classify_walk cwd topdir xs acc of
        None \<Rightarrow> None
      | Some acc' \<Rightarrow> classify_walk cwd topdir ys acc')"
  by (induction xs arbitrary: acc) (auto split: option.splits)

lemma classify_walk_valid:
  assumes t: "topdir \<noteq> []" "CHR ''/'' \<notin> set topdir"
  shows "wf_tree tr \<Longrightarrow> list_all valid_name pre \<Longrightarrow>
         classify_walk cwd topdir (walk (slash_join (topdir # pre)) tr) acc =
           Some (extend acc (map (\<lambda>q. slash_join (pre @ q)) (tree_paths tr)))"
    and "wf_subdirs ds \<Longrightarrow> list_all valid_name pre \<Longrightarrow>
         classify_walk cwd topdir (walk_subdirs (slash_join (topdir # pre)) ds) acc =
           Some (extend acc (map (\<lambda>q. slash_join (pre @ q)) (subdir_paths ds)))"
proof (induction tr and ds arbitrary: pre acc and pre acc rule: wf_tree_wf_subdirs.induct)
  case (1 fs ds)
  then show ?case
    by (simp add: classify_files_valid [OF t] extend_extend comp_def)
next
  case 2
  then show ?case by (simp add: extend_Nil)
next
  case (3 d tr ds)
  from "3.prems" have d: "valid_name d" and w: "wf_tree tr" and ws: "wf_subdirs ds"
    and pd: "list_all valid_name (pre @ [d])" by simp_all
  have j: "os_path_join (slash_join (topdir # pre)) d = slash_join (topdir # pre @ [d])"
    using os_path_join_slash_join [of "topdir # pre" d] t "3.prems"(2) d
    by (auto simp: list_all_iff valid_name_def)
  show ?case
    using "3.IH"(1) [OF w pd] "3.IH"(2) [OF ws "3.prems"(2)]
    by (simp add: j classify_walk_append extend_extend comp_def)
qed

lemma classify_filters:
  assumes "topdir \<noteq> []" and "CHR ''/'' \<notin> set topdir" and "wf_tree t"
  shows "classify cwd topdir t =
           Some \<lparr>workflow_files = filter workflow_rule (rel_paths t),
                 dependency_files = filter dependency_rule (rel_paths t)\<rparr>"
  using classify_walk_valid(1) [OF assms(1,2,3), of "[]" cwd]
  by (simp add: classify_def rel_paths_def extend_def)


lemma tree_paths_length:
  "q \<in> set (tree_paths t) \<Longrightarrow> q \<noteq> []"
  "q \<in> set (subdir_paths ds) \<Longrightarrow> 2 \<le> length q \<and> hd q \<in> fst ` set ds"
  by (induction t and ds arbitrary: q and q rule: tree_paths_subdir_paths.induct)
     (fastforce simp: Suc_le_eq)+

lemma tree_paths_valid:
  "wf_tree t \<Longrightarrow> q \<in> set (tree_paths t) \<Longrightarrow> list_all valid_name q"
  "wf_subdirs ds \<Longrightarrow> q \<in> set (subdir_paths ds) \<Longrightarrow> list_all valid_name q"
  by (induction t and ds arbitrary: q and q rule: wf_tree_wf_subdirs.induct)
     (auto simp: list_all_iff)

lemma distinct_tree_paths:
  "wf_tree t \<Longrightarrow> distinct (tree_paths t)"
  "wf_subdirs ds \<Longrightarrow> distinct (map fst ds) \<Longrightarrow> distinct (subdir_paths ds)"
proof (induction t and ds rule: wf_tree_wf_subdirs.induct)
  case (1 fs ds)
  from "1.prems" have df: "distinct fs" and w: "wf_subdirs ds" and dd: "distinct (map fst ds)"
    by simp_all
  have a: "distinct (map (\<lambda>f. [f]) fs)"
    using df by (simp add: distinct_map inj_on_def)
  have b: "distinct (subdir_paths ds)"
    using "1.IH" [OF w dd] .
  have "[f] \<notin> set (subdir_paths ds)" for f
    using tree_paths_length(2) [of "[f]" ds] by auto
  then have c: "set (map (\<lambda>f. [f]) fs) \<inter> set (subdir_paths ds) = {}"
    by auto
  from a b c show ?case by simp
next
  case 2
  then show ?case by simp
next
  case (3 d t ds)
  from "3.prems" have w: "wf_tree t" "wf_subdirs ds" and dd: "distinct (map fst ds)"
    and nd: "d \<notin> fst ` set ds" by simp_all
  have a: "distinct (map ((#) d) (tree_paths t))"
    using "3.IH"(1) [OF w(1)] by (simp add: distinct_map inj_on_def)
  have b: "distinct (subdir_paths ds)"
    using "3.IH"(2) [OF w(2) dd] .
  have "d # q \<notin> set (subdir_paths ds)" for q
    using tree_paths_length(2) [of "d # q" ds] nd by auto
  then have c: "set (map ((#) d) (tree_paths t)) \<inter> set (subdir_paths ds) = {}"
    by auto
  from a b c show ?case by simp
qed

lemma slash_join_inject:
  assumes "list_all valid_name p" "p \<noteq> []" "list_all valid_name q" "q \<noteq> []"
    and "slash_join p = slash_join q"
  shows "p = q"
proof -
  have ns: "\<forall>x \<in> set r. CHR ''/'' \<notin> set x" if "list_all valid_name r" for r
    using that unfolding list_all_iff valid_name_def by blast
  have "split_sep CHR ''/'' (slash_join p) = p"
    using assms(2) ns [OF assms(1)] by (rule split_sep_slash_join)
  moreover have "split_sep CHR ''/'' (slash_join q) = q"
    using assms(4) ns [OF assms(3)] by (rule split_sep_slash_join)
  ultimately show ?thesis using assms(5) by metis
qed

lemma distinct_rel_paths: "wf_tree t \<Longrightarrow> distinct (rel_paths t)"
proof -
  assume w: "wf_tree t"
  have "inj_on slash_join (set (tree_paths t))"
  proof (rule inj_onI)
    fix p q
    assume "p \<in> set (tree_paths t)" "q \<in> set (tree_paths t)" "slash_join p = slash_join q"
    then show "p = q"
      using tree_paths_valid(1) [OF w] tree_paths_length(1) [of _ t]
      by (intro slash_join_inject) blast+
  qed
  with distinct_tree_paths(1) [OF w] show ?thesis
    by (simp add: rel_paths_def distinct_map)
qed

lemma count_list_filter_distinct:
  "distinct xs \<Longrightarrow> x \<in> set xs \<Longrightarrow> count_list (filter P xs) x = (if P x then 1 else 0)"
  by (induction xs) (auto simp: count_list_0_iff)

lemma count_classify:
  assumes "topdir \<noteq> []" and "CHR ''/'' \<notin> set topdir" and "wf_tree t"
  shows "\<exists>ls. classify cwd topdir t = Some ls
           \<and> (\<forall>p \<in> set (rel_paths t).
                 count_list (workflow_files ls) p = (if workflow_rule p then 1 else 0)
               \<and> count_list (dependency_files ls) p = (if dependency_rule p then 1 else 0))
           \<and> set (workflow_files ls) \<subseteq> set (rel_paths t)
           \<and> set (dependency_files ls) \<subseteq> set (rel_paths t)"
  using classify_filters [OF assms, of cwd] distinct_rel_paths [OF assms(3)]
  by (auto simp: count_list_filter_distinct)

lemma prefix_split_sep:
  "c \<notin> set a \<Longrightarrow> split_sep c (a @ r) = (a @ hd (split_sep c r)) # tl (split_sep c r)"
  using split_sep_nonempty [of c r]
  by (induction a) (auto split: list.splits)

lemma workflow_prefix_components:
  assumes "prefix ''.github/workflows'' p"
  shows "hd (split_sep CHR ''/'' p) = ''.github''
         \<and> 2 \<le> length (split_sep CHR ''/'' p)
         \<and> prefix ''workflows'' (split_sep CHR ''/'' p ! 1)"
proof -
  from assms obtain r where p: "p = ''.github'' @ CHR ''/'' # (''workflows'' @ r)"
    by (auto simp: prefix_def)
  have "split_sep CHR ''/'' p = ''.github'' # split_sep CHR ''/'' (''workflows'' @ r)"
    unfolding p by (rule split_sep_append) simp
  also have "split_sep CHR ''/'' (''workflows'' @ r) =
      (''workflows'' @ hd (split_sep CHR ''/'' r)) # tl (split_sep CHR ''/'' r)"
    by (rule prefix_split_sep) simp
  finally show ?thesis by simp
qed


lemma workflow_rule_iff:
  "workflow_rule p \<longleftrightarrow>
     prefix ''.github/workflows'' p \<and> (suffix ''.yml'' (filename p) \<or> suffix ''.yaml'' (filename p))"
  by (simp add: workflow_rule_def startswith_def endswith_def WORKFLOW_DIR_def)

lemma dependency_rule_iff:
  "dependency_rule p \<longleftrightarrow>
     filename p \<in> {''package.json'', ''requirements.txt'', ''Pipfile'', ''yarn.lock'',
                    ''poetry.lock'', ''Gemfile'', ''composer.json'', ''Cargo.toml'', ''go.mod'',
                    ''environment.yml'', ''env.yml'', ''setup.py''}"
  unfolding dependency_rule_def DEPENDENCY_FILES_def by (simp only: list.set)

section \<open>The run never stops in the walk\<close>

lemma os_path_join_nonempty: "a \<noteq> [] \<Longrightarrow> os_path_join a b \<noteq> []"
  by (auto simp: os_path_join_def startswith_def)

lemma walk_roots_nonempty:
  "topdir \<noteq> [] \<Longrightarrow> \<forall>x \<in> set (walk topdir t). fst x \<noteq> []"
  "topdir \<noteq> [] \<Longrightarrow> \<forall>x \<in> set (walk_subdirs topdir ds). fst x \<noteq> []"
  by (induction topdir t and topdir ds rule: walk_walk_subdirs.induct)
     (auto simp: os_path_join_nonempty)

lemma classify_file_total:
  "root \<noteq> [] \<Longrightarrow> \<exists>acc'. classify_file cwd topdir root file acc = Some acc'"
  using os_path_join_nonempty [of root "file"]
  by (simp add: classify_file_def os_path_relpath_def Let_def)

lemma classify_files_total:
  "root \<noteq> [] \<Longrightarrow> \<exists>acc'. classify_files cwd topdir root fs acc = Some acc'"
proof (induction fs arbitrary: acc)
  case Nil
  then show ?case by simp
next
  case (Cons f fs)
  from classify_file_total [OF Cons.prems] obtain a where
    "classify_file cwd topdir root f acc = Some a" by blast
  with Cons.IH [OF Cons.prems, of a] show ?case by simp
qed

lemma classify_walk_total:
  "\<forall>x \<in> set triples. fst x \<noteq> [] \<Longrightarrow>
   \<exists>acc'. classify_walk cwd topdir triples acc = Some acc'"
proof (induction triples arbitrary: acc)
  case Nil
  then show ?case by simp
next
  case (Cons x xs)
  obtain root dirs fs where x: "x = (root, dirs, fs)" by (cases x)
  with Cons.prems have "root \<noteq> []" by simp
  from classify_files_total [OF this] obtain a where
    "classify_files cwd topdir root fs acc = Some a" by blast
  moreover from Cons.prems have "\<forall>x \<in> set xs. fst x \<noteq> []" by simp
  from Cons.IH [OF this, of a] obtain b where "classify_walk cwd topdir xs a = Some b" by blast
  ultimately show ?case using x by simp
qed

lemma os_walk_roots_nonempty: "\<forall>x \<in> set (os_walk w name). fst x \<noteq> []"
proof (cases "name = [] \<or> tree_at w name = None")
  case True
  then show ?thesis by (auto simp: os_walk_def)
next
  case False
  then obtain t where t: "tree_at w name = Some t" and n: "name \<noteq> []" by auto
  then have "os_walk w name = walk name t" by (simp add: os_walk_def)
  with walk_roots_nonempty(1) [OF n, of t] show ?thesis by simp
qed

lemma scan_and_report_ok:
  "\<exists>ls. scan_and_report w name out cmds =
     \<lparr>exit_status = 0, stdout = out @ report ls, subprocesses = cmds, uncaught = False\<rparr>"
proof -
  from classify_walk_total [OF os_walk_roots_nonempty] obtain ls where
    "classify_walk (getcwd w) name (os_walk w name)
       \<lparr>workflow_files = [], dependency_files = []\<rparr> = Some ls" by blast
  then show ?thesis by (auto simp: scan_and_report_def)
qed

lemma main_usage:
  "length (argv w) \<le> 1 \<or> argv w ! 1 = [] \<Longrightarrow>
   main w = \<lparr>exit_status = 1, stdout = [usage_line], subprocesses = [], uncaught = False\<rparr>"
  by (auto simp: main_def)

lemma main_clone_failed:
  "1 < length (argv w) \<Longrightarrow> argv w ! 1 = url \<Longrightarrow> url \<noteq> [] \<Longrightarrow>
   \<not> path_exists w (REPO_NAME url) \<Longrightarrow> returncode w ([''git'', ''clone'', ''--depth'', ''1'', url]) \<noteq> 0 \<Longrightarrow>
   main w = \<lparr>exit_status = 2,
             stdout = [''Cloning repository '' @ url @ '' ...'', ''Failed to clone repository.''],
             subprocesses = [[''git'', ''clone'', ''--depth'', ''1'', url]], uncaught = False\<rparr>"
  by (simp add: main_def Let_def)

lemma main_pull_failed:
  "1 < length (argv w) \<Longrightarrow> argv w ! 1 = url \<Longrightarrow> url \<noteq> [] \<Longrightarrow>
   path_exists w (REPO_NAME url) \<Longrightarrow> returncode w ([''git'', ''-C'', REPO_NAME url, ''pull'']) \<noteq> 0 \<Longrightarrow>
   main w = \<lparr>exit_status = 3,
             stdout = [''Repository '' @ REPO_NAME url @ '' already exists. Pulling latest changes ...'',
                       ''Failed to pull latest changes.''],
             subprocesses = [[''git'', ''-C'', REPO_NAME url, ''pull'']], uncaught = False\<rparr>"
  by (simp add: main_def Let_def)

lemma main_clone_ok:
  "1 < length (argv w) \<Longrightarrow> argv w ! 1 = url \<Longrightarrow> url \<noteq> [] \<Longrightarrow>
   \<not> path_exists w (REPO_NAME url) \<Longrightarrow> returncode w ([''git'', ''clone'', ''--depth'', ''1'', url]) = 0 \<Longrightarrow>
   main w = scan_and_report w (REPO_NAME url) [''Cloning repository '' @ url @ '' ...''] [[''git'', ''clone'', ''--depth'', ''1'', url]]"
  by (simp add: main_def Let_def)

lemma main_pull_ok:
  "1 < length (argv w) \<Longrightarrow> argv w ! 1 = url \<Longrightarrow> url \<noteq> [] \<Longrightarrow>
   path_exists w (REPO_NAME url) \<Longrightarrow> returncode w ([''git'', ''-C'', REPO_NAME url, ''pull'']) = 0 \<Longrightarrow>
   main w = scan_and_report w (REPO_NAME url)
              [''Repository '' @ REPO_NAME url @ '' already exists. Pulling latest changes ...'']
              [[''git'', ''-C'', REPO_NAME url, ''pull'']]"
  by (simp add: main_def Let_def)


section \<open>The derived name and the whole run\<close>

lemma split_sep_pieces: "w \<in> set (split_sep c s) \<Longrightarrow> c \<notin> set w"
proof (induction s arbitrary: w)
  case Nil
  then show ?case by simp
next
  case (Cons x s)
  show ?case
  proof (cases "x = c")
    case True
    with Cons show ?thesis by auto
  next
    case False
    obtain v vs where v: "split_sep c s = v # vs"
      using split_sep_nonempty [of c s] by (cases "split_sep c s") auto
    with False Cons.prems have "w = x # v \<or> w \<in> set vs" by simp
    with Cons.IH v False show ?thesis by auto
  qed
qed

lemma set_replace: "set (replace old new s) \<subseteq> set new \<union> set s"
proof (induction old new s rule: replace.induct)
  case (1 old new)
  then show ?case by auto
next
  case (2 old new c cs)
  have "set (drop (length old) (c # cs)) \<subseteq> set (c # cs)" by (rule set_drop_subset)
  with 2 show ?case by (auto split: if_splits)
qed

lemma REPO_NAME_no_slash: "CHR ''/'' \<notin> set (REPO_NAME url)"
proof -
  let ?seg = "last (split_sep CHR ''/'' (rstrip ''/'' url))"
  have "?seg \<in> set (split_sep CHR ''/'' (rstrip ''/'' url))"
    using split_sep_nonempty by (rule last_in_set)
  then have "CHR ''/'' \<notin> set ?seg" by (rule split_sep_pieces)
  with set_replace [of "''.git''" "''''" ?seg] show ?thesis
    by (auto simp: REPO_NAME_def)
qed

lemma scan_and_report_filters:
  assumes "tree_at w name = Some t" and "wf_tree t" and "name \<noteq> []" and "CHR ''/'' \<notin> set name"
  shows "scan_and_report w name out cmds =
           \<lparr>exit_status = 0,
            stdout = out @ report \<lparr>workflow_files = filter workflow_rule (rel_paths t),
                                   dependency_files = filter dependency_rule (rel_paths t)\<rparr>,
            subprocesses = cmds, uncaught = False\<rparr>"
  using classify_filters [OF assms(3,4,2), of "getcwd w"] assms(1,3)
  by (simp add: scan_and_report_def os_walk_def classify_def)

section \<open>The example inputs\<close>

lemma wf_example_tree: "wf_tree example_tree"
  by (simp add: example_tree_def valid_name_def)

lemma wf_small_tree: "wf_tree small_tree"
  by (simp add: small_tree_def valid_name_def)

lemma rel_paths_example_tree:
  "rel_paths example_tree =
     [''README.md'', ''package.json'', ''.github/workflowsfoo.yml'',
      ''.github/workflows/ci.yml'', ''.github/workflows/notes.txt'',
      ''.github/workflows/go.mod'', ''.github/workflows/environment.yml'',
      ''.github/workflows/ci.YML'', ''.github/workflows-old/ci.yml'',
      ''sub/dir/package.json'']"
  by (simp add: example_tree_def rel_paths_def)

lemma rel_paths_small_tree:
  "rel_paths small_tree =
     [''package.json'', ''.github/workflows/ci.yml'', ''.github/workflows/go.mod'']"
  by (simp add: small_tree_def rel_paths_def)



section \<open>The claims\<close>

text \<open>
  C1, as the specification states it: a file at \<^verbatim>\<open>.github/workflows/go.mod\<close> is placed in
  both sequences. The script does not do so: the workflow test also asks for a name ending
  in \<^verbatim>\<open>.yml\<close> or \<^verbatim>\<open>.yaml\<close>, and the tree below leaves the workflow sequence empty.
\<close>

theorem go_mod_under_workflows_counterexample:
  "classify [''home'', ''user''] ''repo''
     (Dir [] [(''.github'', Dir [] [(''workflows'', Dir [''go.mod''] [])])]) =
   Some \<lparr>workflow_files = [], dependency_files = [''.github/workflows/go.mod'']\<rparr>"
  by (simp add: classify_def classify_file_def os_path_join_def os_path_relpath_def
      abspath_list_def startswith_def endswith_def suffix_to_prefix
      WORKFLOW_DIR_def DEPENDENCY_FILES_def)

text \<open>
  C1, amended: on a well-formed tree holding \<^verbatim>\<open>.github/workflows/go.mod\<close>, that path is in
  the dependency-file sequence exactly once and not in the workflow-file sequence. The two
  tests are independent: a file that passes both, such as
  \<^verbatim>\<open>.github/workflows/environment.yml\<close>, is in both sequences, once in each.
\<close>

theorem file_matching_both_rules:
  assumes "topdir \<noteq> []" and "CHR ''/'' \<notin> set topdir" and "wf_tree t"
  shows "\<exists>ls. classify cwd topdir t = Some ls
           \<and> (''.github/workflows/go.mod'' \<in> set (rel_paths t) \<longrightarrow>
                count_list (dependency_files ls) ''.github/workflows/go.mod'' = 1
                \<and> ''.github/workflows/go.mod'' \<notin> set (workflow_files ls))
           \<and> (\<forall>p \<in> set (rel_paths t).
                 prefix ''.github/workflows'' p
                 \<and> (suffix ''.yml'' (filename p) \<or> suffix ''.yaml'' (filename p))
                 \<and> filename p \<in> set DEPENDENCY_FILES \<longrightarrow>
                 count_list (workflow_files ls) p = 1 \<and> count_list (dependency_files ls) p = 1)
           \<and> (''.github/workflows/environment.yml'' \<in> set (rel_paths t) \<longrightarrow>
                count_list (workflow_files ls) ''.github/workflows/environment.yml'' = 1
                \<and> count_list (dependency_files ls) ''.github/workflows/environment.yml'' = 1)"
proof -
  from count_classify [OF assms, of cwd] obtain ls where
    c: "classify cwd topdir t = Some ls"
    and n: "\<And>p. p \<in> set (rel_paths t) \<Longrightarrow>
              count_list (workflow_files ls) p = (if workflow_rule p then 1 else 0)
            \<and> count_list (dependency_files ls) p = (if dependency_rule p then 1 else 0)"
    by blast
  have g: "\<not> workflow_rule ''.github/workflows/go.mod''"
    "dependency_rule ''.github/workflows/go.mod''"
    by (simp_all add: workflow_rule_iff dependency_rule_iff filename_def suffix_to_prefix)
  have e: "workflow_rule ''.github/workflows/environment.yml''"
    "dependency_rule ''.github/workflows/environment.yml''"
    by (simp_all add: workflow_rule_iff dependency_rule_iff filename_def suffix_to_prefix)
  have 1: "''.github/workflows/go.mod'' \<in> set (rel_paths t) \<longrightarrow>
                count_list (dependency_files ls) ''.github/workflows/go.mod'' = 1
                \<and> ''.github/workflows/go.mod'' \<notin> set (workflow_files ls)"
    using n [of "''.github/workflows/go.mod''"] g by (auto simp: count_list_0_iff)
  have 2: "\<forall>p \<in> set (rel_paths t).
                 prefix ''.github/workflows'' p
                 \<and> (suffix ''.yml'' (filename p) \<or> suffix ''.yaml'' (filename p))
                 \<and> filename p \<in> set DEPENDENCY_FILES \<longrightarrow>
                 count_list (workflow_files ls) p = 1 \<and> count_list (dependency_files ls) p = 1"
    using n by (auto simp: workflow_rule_iff dependency_rule_def)
  have 3: "''.github/workflows/environment.yml'' \<in> set (rel_paths t) \<longrightarrow>
                count_list (workflow_files ls) ''.github/workflows/environment.yml'' = 1
                \<and> count_list (dependency_files ls) ''.github/workflows/environment.yml'' = 1"
    using n [of "''.github/workflows/environment.yml''"] e by auto
  from c 1 2 3 show ?thesis by blast
qed

theorem file_matching_both_rules_witness:
  "\<exists>ls. classify [''home'', ''user''] ''repo'' example_tree = Some ls
     \<and> count_list (dependency_files ls) ''.github/workflows/go.mod'' = 1
     \<and> ''.github/workflows/go.mod'' \<notin> set (workflow_files ls)
     \<and> count_list (workflow_files ls) ''.github/workflows/environment.yml'' = 1
     \<and> count_list (dependency_files ls) ''.github/workflows/environment.yml'' = 1"
proof -
  have t: "''repo'' \<noteq> []" "CHR ''/'' \<notin> set ''repo''" by simp_all
  have m: "''.github/workflows/go.mod'' \<in> set (rel_paths example_tree)"
    "''.github/workflows/environment.yml'' \<in> set (rel_paths example_tree)"
    by (simp_all add: rel_paths_example_tree)
  show ?thesis
    using file_matching_both_rules [OF t wf_example_tree, of "[''home'', ''user'']"] m
    by auto
qed

text \<open>
  C2. The specification derives the local directory name as the final segment of the URL
  with a \<^verbatim>\<open>.git\<close> suffix, and only a suffix, removed. The script calls
  \<^verbatim>\<open>replace(".git", "")\<close>, which removes every occurrence: for the URL
  \<^verbatim>\<open>https://github.com/octocat/octocat.github.io\<close> it computes \<^verbatim>\<open>octocathub.io\<close>, where
  the specification (and the directory \<^verbatim>\<open>git clone\<close> creates) is \<^verbatim>\<open>octocat.github.io\<close>. On
  \<^verbatim>\<open>https://example.com/foo.git\<close> both give \<^verbatim>\<open>foo\<close>.
\<close>

theorem REPO_NAME_removes_inner_dot_git:
  "REPO_NAME ''https://github.com/octocat/octocat.github.io'' = ''octocathub.io''
   \<and> local_name_spec ''https://github.com/octocat/octocat.github.io'' = ''octocat.github.io''
   \<and> REPO_NAME ''https://example.com/foo.git'' = ''foo''
   \<and> local_name_spec ''https://example.com/foo.git'' = ''foo''"
  by (simp add: REPO_NAME_def local_name_spec_def strip_git_suffix_def rstrip_def suffix_to_prefix)

text \<open>
  C3, as the specification states it: only files under the directory
  \<^verbatim>\<open>.github/workflows\<close>, whose first two path components are \<^verbatim>\<open>.github\<close> and
  \<^verbatim>\<open>workflows\<close>, reach the workflow-file sequence. The script compares characters, not
  components: the file \<^verbatim>\<open>.github/workflows-old/ci.yml\<close> is placed in the sequence.
\<close>

theorem workflows_old_counterexample:
  "classify [''home'', ''user''] ''repo''
     (Dir [] [(''.github'', Dir [] [(''workflows-old'', Dir [''ci.yml''] [])])]) =
   Some \<lparr>workflow_files = [''.github/workflows-old/ci.yml''], dependency_files = []\<rparr>
   \<and> split_sep CHR ''/'' ''.github/workflows-old/ci.yml'' =
       [''.github'', ''workflows-old'', ''ci.yml'']"
  by (simp add: classify_def classify_file_def os_path_join_def os_path_relpath_def
      abspath_list_def startswith_def endswith_def suffix_to_prefix
      WORKFLOW_DIR_def DEPENDENCY_FILES_def)

text \<open>
  C3, amended: on a well-formed tree every path of the workflow-file sequence is the
  relative path of a file of the tree, begins with the literal characters
  \<^verbatim>\<open>.github/workflows\<close> (so its first component is \<^verbatim>\<open>.github\<close> and its second component
  begins with \<^verbatim>\<open>workflows\<close>), and has a file name ending in \<^verbatim>\<open>.yml\<close> or \<^verbatim>\<open>.yaml\<close>.
\<close>

theorem workflow_sequence_only_if:
  assumes "topdir \<noteq> []" and "CHR ''/'' \<notin> set topdir" and "wf_tree t"
  shows "\<exists>ls. classify cwd topdir t = Some ls
           \<and> (\<forall>p \<in> set (workflow_files ls).
                 p \<in> set (rel_paths t)
                 \<and> prefix ''.github/workflows'' p
                 \<and> (suffix ''.yml'' (filename p) \<or> suffix ''.yaml'' (filename p))
                 \<and> 2 \<le> length (split_sep CHR ''/'' p)
                 \<and> split_sep CHR ''/'' p ! 0 = ''.github''
                 \<and> prefix ''workflows'' (split_sep CHR ''/'' p ! 1))"
proof -
  let ?ls = "\<lparr>workflow_files = filter workflow_rule (rel_paths t),
               dependency_files = filter dependency_rule (rel_paths t)\<rparr>"
  have c: "classify cwd topdir t = Some ?ls"
    using assms by (rule classify_filters)
  have "p \<in> set (rel_paths t)
        \<and> prefix ''.github/workflows'' p
        \<and> (suffix ''.yml'' (filename p) \<or> suffix ''.yaml'' (filename p))
        \<and> 2 \<le> length (split_sep CHR ''/'' p)
        \<and> split_sep CHR ''/'' p ! 0 = ''.github''
        \<and> prefix ''workflows'' (split_sep CHR ''/'' p ! 1)"
    if "p \<in> set (workflow_files ?ls)" for p
  proof -
    from that have m: "p \<in> set (rel_paths t)" and r: "workflow_rule p" by simp_all
    from r have pr: "prefix ''.github/workflows'' p"
      and su: "suffix ''.yml'' (filename p) \<or> suffix ''.yaml'' (filename p)"
      by (simp_all add: workflow_rule_iff)
    from workflow_prefix_components [OF pr] split_sep_nonempty [of "CHR ''/''" p]
    have "2 \<le> length (split_sep CHR ''/'' p)" "split_sep CHR ''/'' p ! 0 = ''.github''"
      "prefix ''workflows'' (split_sep CHR ''/'' p ! 1)"
      by (simp_all add: hd_conv_nth)
    with m pr su show ?thesis by blast
  qed
  with c show ?thesis by blast
qed

theorem workflow_sequence_only_if_witness:
  "\<exists>ls. classify [''home'', ''user''] ''repo'' example_tree = Some ls
     \<and> ''.github/workflows-old/ci.yml'' \<in> set (workflow_files ls)
     \<and> prefix ''.github/workflows'' ''.github/workflows-old/ci.yml''
     \<and> split_sep CHR ''/'' ''.github/workflows-old/ci.yml'' ! 0 = ''.github''
     \<and> prefix ''workflows'' (split_sep CHR ''/'' ''.github/workflows-old/ci.yml'' ! 1)"
proof -
  have t: "''repo'' \<noteq> []" "CHR ''/'' \<notin> set ''repo''" by simp_all
  have w: "workflow_rule ''.github/workflows-old/ci.yml''"
    by (simp add: workflow_rule_iff filename_def suffix_to_prefix)
  have v: "classify [''home'', ''user''] ''repo'' example_tree =
      Some \<lparr>workflow_files = filter workflow_rule (rel_paths example_tree),
            dependency_files = filter dependency_rule (rel_paths example_tree)\<rparr>"
    using t wf_example_tree by (rule classify_filters)
  have i: "''.github/workflows-old/ci.yml'' \<in> set (filter workflow_rule (rel_paths example_tree))"
    using w by (simp add: rel_paths_example_tree)
  show ?thesis
    using workflow_sequence_only_if [OF t wf_example_tree, of "[''home'', ''user'']"] v i
    by auto
qed

text \<open>
  C4. For every file of a well-formed tree, the walk appends its relative path to the
  workflow-file sequence exactly once if the path begins with the literal prefix
  \<^verbatim>\<open>.github/workflows\<close> and the file name ends in \<^verbatim>\<open>.yml\<close> or \<^verbatim>\<open>.yaml\<close> (compared
  character by character), and not at all otherwise; \<^verbatim>\<open>.github/workflows/ci.yml\<close> is there
  exactly once and \<^verbatim>\<open>.github/workflows/notes.txt\<close> is not there.
\<close>

theorem workflow_sequence_exactly_once:
  assumes "topdir \<noteq> []" and "CHR ''/'' \<notin> set topdir" and "wf_tree t"
    and "p \<in> set (rel_paths t)"
  shows "\<exists>ls. classify cwd topdir t = Some ls
           \<and> count_list (workflow_files ls) p =
               (if prefix ''.github/workflows'' p
                   \<and> (suffix ''.yml'' (filename p) \<or> suffix ''.yaml'' (filename p))
                then 1 else 0)
           \<and> (p = ''.github/workflows/ci.yml'' \<longrightarrow> count_list (workflow_files ls) p = 1)
           \<and> (p = ''.github/workflows/notes.txt'' \<longrightarrow> p \<notin> set (workflow_files ls))"
proof -
  from count_classify [OF assms(1-3), of cwd] obtain ls where
    c: "classify cwd topdir t = Some ls"
    and n: "\<forall>p \<in> set (rel_paths t).
              count_list (workflow_files ls) p = (if workflow_rule p then 1 else 0)
            \<and> count_list (dependency_files ls) p = (if dependency_rule p then 1 else 0)"
    by blast
  from n assms(4) have k: "count_list (workflow_files ls) p = (if workflow_rule p then 1 else 0)"
    by blast
  have y: "workflow_rule ''.github/workflows/ci.yml''"
    by (simp add: workflow_rule_iff filename_def suffix_to_prefix)
  have x: "\<not> workflow_rule ''.github/workflows/notes.txt''"
    by (simp add: workflow_rule_iff filename_def suffix_to_prefix)
  have "p = ''.github/workflows/ci.yml'' \<longrightarrow> count_list (workflow_files ls) p = 1"
    using k y by auto
  moreover have "p = ''.github/workflows/notes.txt'' \<longrightarrow> p \<notin> set (workflow_files ls)"
    using k x by (auto simp: count_list_0_iff)
  ultimately show ?thesis using c k by (simp add: workflow_rule_iff)
qed

theorem workflow_sequence_exactly_once_witness:
  "(\<exists>ls. classify [''home'', ''user''] ''repo'' example_tree = Some ls
      \<and> count_list (workflow_files ls) ''.github/workflows/ci.yml'' = 1)
   \<and> (\<exists>ls. classify [''home'', ''user''] ''repo'' example_tree = Some ls
      \<and> ''.github/workflows/notes.txt'' \<notin> set (workflow_files ls))
   \<and> (\<exists>ls. classify [''home'', ''user''] ''repo'' example_tree = Some ls
      \<and> count_list (workflow_files ls) ''.github/workflows/ci.YML'' = 0)"
proof -
  have t: "''repo'' \<noteq> []" "CHR ''/'' \<notin> set ''repo''" by simp_all
  have m: "''.github/workflows/ci.yml'' \<in> set (rel_paths example_tree)"
    "''.github/workflows/notes.txt'' \<in> set (rel_paths example_tree)"
    "''.github/workflows/ci.YML'' \<in> set (rel_paths example_tree)"
    by (simp_all add: rel_paths_example_tree)
  have f: "filename ''.github/workflows/ci.YML'' = ''ci.YML''" by (simp add: filename_def)
  show ?thesis
    using workflow_sequence_exactly_once [OF t wf_example_tree m(1), of "[''home'', ''user'']"]
      workflow_sequence_exactly_once [OF t wf_example_tree m(2), of "[''home'', ''user'']"]
      workflow_sequence_exactly_once [OF t wf_example_tree m(3), of "[''home'', ''user'']"]
    by (auto simp: f suffix_to_prefix)
qed

text \<open>
  C5. For every file of a well-formed tree, the walk appends its relative path to the
  dependency-file sequence exactly once if its final component is one of the twelve names
  of \<^const>\<open>DEPENDENCY_FILES\<close>, written out below, and not at all otherwise, at any depth;
  \<^verbatim>\<open>sub/dir/package.json\<close> is there exactly once.
\<close>

theorem dependency_sequence_exactly_once:
  assumes "topdir \<noteq> []" and "CHR ''/'' \<notin> set topdir" and "wf_tree t"
    and "p \<in> set (rel_paths t)"
  shows "\<exists>ls. classify cwd topdir t = Some ls
           \<and> count_list (dependency_files ls) p =
               (if filename p \<in>
                     {''package.json'', ''requirements.txt'', ''Pipfile'', ''yarn.lock'',
                      ''poetry.lock'', ''Gemfile'', ''composer.json'', ''Cargo.toml'',
                      ''go.mod'', ''environment.yml'', ''env.yml'', ''setup.py''}
                then 1 else 0)
           \<and> (p = ''sub/dir/package.json'' \<longrightarrow> count_list (dependency_files ls) p = 1)"
proof -
  from count_classify [OF assms(1-3), of cwd] assms(4) obtain ls where
    c: "classify cwd topdir t = Some ls"
    and k: "count_list (dependency_files ls) p = (if dependency_rule p then 1 else 0)"
    by blast
  have y: "dependency_rule ''sub/dir/package.json''"
    by (simp add: dependency_rule_def DEPENDENCY_FILES_def filename_def)
  have "p = ''sub/dir/package.json'' \<longrightarrow> count_list (dependency_files ls) p = 1"
    using k y by auto
  with c k show ?thesis
    unfolding dependency_rule_iff by (intro exI [of _ ls] conjI)
qed

theorem dependency_sequence_exactly_once_witness:
  "(\<exists>ls. classify [''home'', ''user''] ''repo'' example_tree = Some ls
      \<and> count_list (dependency_files ls) ''sub/dir/package.json'' = 1)
   \<and> (\<exists>ls. classify [''home'', ''user''] ''repo'' example_tree = Some ls
      \<and> count_list (dependency_files ls) ''README.md'' = 0)"
proof -
  have t: "''repo'' \<noteq> []" "CHR ''/'' \<notin> set ''repo''" by simp_all
  have m: "''sub/dir/package.json'' \<in> set (rel_paths example_tree)"
    "''README.md'' \<in> set (rel_paths example_tree)"
    by (simp_all add: rel_paths_example_tree)
  have f: "filename ''README.md'' = ''README.md''" by (simp add: filename_def)
  show ?thesis
    using dependency_sequence_exactly_once [OF t wf_example_tree m(1), of "[''home'', ''user'']"]
      dependency_sequence_exactly_once [OF t wf_example_tree m(2), of "[''home'', ''user'']"]
    by (auto simp: f)
qed

text \<open>
  C6. The run exits with status 1 when no URL argument is supplied, with 2 when the clone
  returns a non-zero code, with 3 when the pull returns a non-zero code, and with 0 when
  the command it ran returned 0. Each of the three failures ends the run: the output is
  the lines printed up to the failure, and a run with a non-zero status has printed no
  line of the report.
\<close>

theorem exit_status_of_run:
  "(length (argv w) \<le> 1 \<longrightarrow>
      main w = \<lparr>exit_status = 1, stdout = [usage_line], subprocesses = [], uncaught = False\<rparr>)
   \<and> (1 < length (argv w) \<and> argv w ! 1 \<noteq> [] \<and> \<not> path_exists w (REPO_NAME (argv w ! 1))
        \<and> returncode w [''git'', ''clone'', ''--depth'', ''1'', argv w ! 1] \<noteq> 0 \<longrightarrow>
      exit_status (main w) = 2
      \<and> stdout (main w) =
          [''Cloning repository '' @ argv w ! 1 @ '' ...'', ''Failed to clone repository.''])
   \<and> (1 < length (argv w) \<and> argv w ! 1 \<noteq> [] \<and> path_exists w (REPO_NAME (argv w ! 1))
        \<and> returncode w [''git'', ''-C'', REPO_NAME (argv w ! 1), ''pull''] \<noteq> 0 \<longrightarrow>
      exit_status (main w) = 3
      \<and> stdout (main w) =
          [''Repository '' @ REPO_NAME (argv w ! 1) @ '' already exists. Pulling latest changes ...'',
           ''Failed to pull latest changes.''])
   \<and> (1 < length (argv w) \<and> argv w ! 1 \<noteq> []
        \<and> returncode w (if path_exists w (REPO_NAME (argv w ! 1))
                         then [''git'', ''-C'', REPO_NAME (argv w ! 1), ''pull'']
                         else [''git'', ''clone'', ''--depth'', ''1'', argv w ! 1]) = 0 \<longrightarrow>
      exit_status (main w) = 0
      \<and> (\<exists>ls. suffix (report ls) (stdout (main w))))
   \<and> (exit_status (main w) \<noteq> 0 \<longrightarrow>
        CHR 0x0A # ''Workflow files found:'' \<notin> set (stdout (main w))
        \<and> CHR 0x0A # ''Dependency files found:'' \<notin> set (stdout (main w))
        \<and> ''  (none found)'' \<notin> set (stdout (main w)))"
proof -
  let ?url = "argv w ! 1"
  let ?name = "REPO_NAME ?url"
  let ?clone = "[''git'', ''clone'', ''--depth'', ''1'', ?url]"
  let ?pull = "[''git'', ''-C'', ?name, ''pull'']"
  let ?usage = "\<lparr>exit_status = 1, stdout = [usage_line], subprocesses = [], uncaught = False\<rparr>"
  have usage: "main w = ?usage" if "length (argv w) \<le> 1 \<or> ?url = []"
    using that by (rule main_usage)
  have clone_failed: "main w = \<lparr>exit_status = 2,
        stdout = [''Cloning repository '' @ ?url @ '' ...'', ''Failed to clone repository.''],
        subprocesses = [?clone], uncaught = False\<rparr>"
    if "1 < length (argv w)" "?url \<noteq> []" "\<not> path_exists w ?name" "returncode w ?clone \<noteq> 0"
    using that main_clone_failed [of w ?url] by simp
  have pull_failed: "main w = \<lparr>exit_status = 3,
        stdout = [''Repository '' @ ?name @ '' already exists. Pulling latest changes ...'',
                  ''Failed to pull latest changes.''],
        subprocesses = [?pull], uncaught = False\<rparr>"
    if "1 < length (argv w)" "?url \<noteq> []" "path_exists w ?name" "returncode w ?pull \<noteq> 0"
    using that main_pull_failed [of w ?url] by simp
  have succeeded: "\<exists>ls out cmds. main w =
        \<lparr>exit_status = 0, stdout = out @ report ls, subprocesses = cmds, uncaught = False\<rparr>"
    if "1 < length (argv w)" "?url \<noteq> []"
       "returncode w (if path_exists w ?name then ?pull else ?clone) = 0"
  proof (cases "path_exists w ?name")
    case True
    with that main_pull_ok [of w ?url] obtain out cmds where
      "main w = scan_and_report w ?name out cmds"
      by simp
    moreover from scan_and_report_ok [of w ?name out cmds] obtain ls where
      "scan_and_report w ?name out cmds =
        \<lparr>exit_status = 0, stdout = out @ report ls, subprocesses = cmds, uncaught = False\<rparr>" ..
    ultimately show ?thesis by metis
  next
    case False
    with that main_clone_ok [of w ?url] obtain out cmds where
      "main w = scan_and_report w ?name out cmds"
      by simp
    moreover from scan_and_report_ok [of w ?name out cmds] obtain ls where
      "scan_and_report w ?name out cmds =
        \<lparr>exit_status = 0, stdout = out @ report ls, subprocesses = cmds, uncaught = False\<rparr>" ..
    ultimately show ?thesis by metis
  qed
  have c4: "exit_status (main w) = 0 \<and> (\<exists>ls. suffix (report ls) (stdout (main w)))"
    if "1 < length (argv w)" "?url \<noteq> []"
       "returncode w (if path_exists w ?name then ?pull else ?clone) = 0"
  proof -
    from succeeded [OF that] obtain ls out cmds where m: "main w =
        \<lparr>exit_status = 0, stdout = out @ report ls, subprocesses = cmds, uncaught = False\<rparr>"
      by blast
    then have "suffix (report ls) (stdout (main w))" by (simp add: suffix_def)
    with m show ?thesis by auto
  qed
  have c5: "CHR 0x0A # ''Workflow files found:'' \<notin> set (stdout (main w))
        \<and> CHR 0x0A # ''Dependency files found:'' \<notin> set (stdout (main w))
        \<and> ''  (none found)'' \<notin> set (stdout (main w))"
    if nz: "exit_status (main w) \<noteq> 0"
  proof -
    consider (u) "length (argv w) \<le> 1 \<or> ?url = []"
      | (c) "1 < length (argv w)" "?url \<noteq> []" "\<not> path_exists w ?name" "returncode w ?clone \<noteq> 0"
      | (p) "1 < length (argv w)" "?url \<noteq> []" "path_exists w ?name" "returncode w ?pull \<noteq> 0"
      | (s) "1 < length (argv w)" "?url \<noteq> []"
            "returncode w (if path_exists w ?name then ?pull else ?clone) = 0"
      by atomize_elim (cases "path_exists w ?name"; simp; linarith)
    then show ?thesis
    proof cases
      case u
      then show ?thesis using usage by (simp add: usage_line_def)
    next
      case c
      then show ?thesis using clone_failed by simp
    next
      case p
      then show ?thesis using pull_failed by simp
    next
      case s
      then show ?thesis using succeeded nz by auto
    qed
  qed
  from usage clone_failed pull_failed c4 c5 show ?thesis by simp
qed

theorem exit_status_of_run_witness:
  "exit_status (main (example_world [''prog''] False 0)) = 1
   \<and> exit_status (main (example_world [''prog'', ''https://example.com/foo.git''] False 128)) = 2
   \<and> exit_status (main (example_world [''prog'', ''https://example.com/foo.git''] True 1)) = 3
   \<and> exit_status (main (example_world [''prog'', ''https://example.com/foo.git''] True 0)) = 0
   \<and> ''  (none found)'' \<notin> set (stdout (main (example_world [''prog'', ''https://example.com/foo.git''] True 1)))"
  using exit_status_of_run [of "example_world [''prog''] False 0"]
    exit_status_of_run [of "example_world [''prog'', ''https://example.com/foo.git''] False 128"]
    exit_status_of_run [of "example_world [''prog'', ''https://example.com/foo.git''] True 1"]
    exit_status_of_run [of "example_world [''prog'', ''https://example.com/foo.git''] True 0"]
  by (simp add: example_world_def)

text \<open>
  C7. With a URL supplied, the only command the script runs is the pull inside the derived
  directory when a file-system entry of that name exists, and the clone of depth 1
  otherwise; what the entry contains (the tree found there) does not change the choice.
\<close>

theorem acquire_pull_or_clone:
  assumes "1 < length (argv w)" and "argv w ! 1 = url" and "url \<noteq> []"
  shows "subprocesses (main w) =
           (if path_exists w (REPO_NAME url)
            then [[''git'', ''-C'', REPO_NAME url, ''pull'']]
            else [[''git'', ''clone'', ''--depth'', ''1'', url]])
         \<and> subprocesses (main (w\<lparr>tree_at := other\<rparr>)) = subprocesses (main w)"
proof -
  have "subprocesses (main v) =
           (if path_exists v (REPO_NAME url)
            then [[''git'', ''-C'', REPO_NAME url, ''pull'']]
            else [[''git'', ''clone'', ''--depth'', ''1'', url]])"
    if "1 < length (argv v)" and "argv v ! 1 = url" for v
    using that assms(3) by (simp add: main_def Let_def scan_and_report_def split: option.splits)
  from this [of w] this [of "w\<lparr>tree_at := other\<rparr>"] assms show ?thesis by simp
qed

theorem acquire_pull_or_clone_witness:
  "subprocesses (main (example_world [''prog'', ''https://example.com/foo.git''] True 0)) =
     [[''git'', ''-C'', ''foo'', ''pull'']]
   \<and> subprocesses (main (example_world [''prog'', ''https://example.com/foo.git''] False 0)) =
     [[''git'', ''clone'', ''--depth'', ''1'', ''https://example.com/foo.git'']]"
proof -
  have n: "REPO_NAME ''https://example.com/foo.git'' = ''foo''"
    by (simp add: REPO_NAME_def rstrip_def)
  show ?thesis
    using acquire_pull_or_clone [of "example_world [''prog'', ''https://example.com/foo.git''] True 0"
        "''https://example.com/foo.git''"]
      acquire_pull_or_clone [of "example_world [''prog'', ''https://example.com/foo.git''] False 0"
        "''https://example.com/foo.git''"]
    by (simp add: example_world_def n)
qed

text \<open>
  C8. On an empty directory tree both sequences are empty, and the report of two empty
  sequences is the two headings, each followed by the line \<^verbatim>\<open>  (none found)\<close>.
\<close>

theorem empty_tree_reports_none_found:
  "classify cwd topdir (Dir [] []) = Some \<lparr>workflow_files = [], dependency_files = []\<rparr>
   \<and> report \<lparr>workflow_files = [], dependency_files = []\<rparr> =
       [CHR 0x0A # ''Workflow files found:'', ''  (none found)'',
        CHR 0x0A # ''Dependency files found:'', ''  (none found)'']"
  by (simp add: classify_def report_def report_section_def)

text \<open>
  C9. An empty string as the URL argument is treated as a missing argument: the usage
  line is printed, the status is 1 and no command is run.
\<close>

theorem empty_url_is_usage_error:
  "main (w\<lparr>argv := prog # [] # rest\<rparr>) =
     \<lparr>exit_status = 1, stdout = [usage_line], subprocesses = [], uncaught = False\<rparr>
   \<and> main (w\<lparr>argv := prog # [] # rest\<rparr>) = main (w\<lparr>argv := [prog]\<rparr>)"
  by (simp add: main_def)

text \<open>
  C10. Classification is pointwise. On a well-formed tree each sequence is the list of
  relative paths filtered by a test of the path string alone, and for two well-formed
  trees (walked from any directories) a path that both contain occurs equally often in the
  workflow-file sequences of both, and equally often in their dependency-file sequences.
\<close>

theorem classification_is_pointwise:
  assumes "topdir1 \<noteq> []" and "CHR ''/'' \<notin> set topdir1" and "wf_tree t1"
    and "topdir2 \<noteq> []" and "CHR ''/'' \<notin> set topdir2" and "wf_tree t2"
  shows "\<exists>ls1 ls2.
           classify cwd1 topdir1 t1 = Some ls1 \<and> classify cwd2 topdir2 t2 = Some ls2
           \<and> workflow_files ls1 = filter workflow_rule (rel_paths t1)
           \<and> dependency_files ls1 = filter dependency_rule (rel_paths t1)
           \<and> (\<forall>p \<in> set (rel_paths t1) \<inter> set (rel_paths t2).
                 count_list (workflow_files ls1) p = count_list (workflow_files ls2) p
                 \<and> count_list (dependency_files ls1) p = count_list (dependency_files ls2) p
                 \<and> (p \<in> set (workflow_files ls1) \<longleftrightarrow> p \<in> set (workflow_files ls2))
                 \<and> (p \<in> set (dependency_files ls1) \<longleftrightarrow> p \<in> set (dependency_files ls2)))"
proof -
  let ?l1 = "\<lparr>workflow_files = filter workflow_rule (rel_paths t1),
               dependency_files = filter dependency_rule (rel_paths t1)\<rparr>"
  let ?l2 = "\<lparr>workflow_files = filter workflow_rule (rel_paths t2),
               dependency_files = filter dependency_rule (rel_paths t2)\<rparr>"
  have c1: "classify cwd1 topdir1 t1 = Some ?l1"
    using assms(1-3) by (rule classify_filters)
  have c2: "classify cwd2 topdir2 t2 = Some ?l2"
    using assms(4-6) by (rule classify_filters)
  have d1: "distinct (rel_paths t1)" using assms(3) by (rule distinct_rel_paths)
  have d2: "distinct (rel_paths t2)" using assms(6) by (rule distinct_rel_paths)
  have "count_list (workflow_files ?l1) p = count_list (workflow_files ?l2) p
        \<and> count_list (dependency_files ?l1) p = count_list (dependency_files ?l2) p
        \<and> (p \<in> set (workflow_files ?l1) \<longleftrightarrow> p \<in> set (workflow_files ?l2))
        \<and> (p \<in> set (dependency_files ?l1) \<longleftrightarrow> p \<in> set (dependency_files ?l2))"
    if "p \<in> set (rel_paths t1) \<inter> set (rel_paths t2)" for p
    using that d1 d2 by (simp add: count_list_filter_distinct)
  with c1 c2 show ?thesis by simp
qed

theorem classification_is_pointwise_witness:
  "\<exists>ls1 ls2.
     classify [''home'', ''user''] ''repo'' example_tree = Some ls1
     \<and> classify [''tmp''] ''other'' small_tree = Some ls2
     \<and> count_list (workflow_files ls1) ''.github/workflows/ci.yml'' =
         count_list (workflow_files ls2) ''.github/workflows/ci.yml''
     \<and> count_list (dependency_files ls1) ''.github/workflows/go.mod'' =
         count_list (dependency_files ls2) ''.github/workflows/go.mod''"
proof -
  have t: "''repo'' \<noteq> []" "CHR ''/'' \<notin> set ''repo''" by simp_all
  have u: "''other'' \<noteq> []" "CHR ''/'' \<notin> set ''other''" by simp_all
  have m: "''.github/workflows/ci.yml'' \<in> set (rel_paths example_tree) \<inter> set (rel_paths small_tree)"
    "''.github/workflows/go.mod'' \<in> set (rel_paths example_tree) \<inter> set (rel_paths small_tree)"
    by (simp_all add: rel_paths_example_tree rel_paths_small_tree)
  show ?thesis
    using classification_is_pointwise [OF t wf_example_tree u wf_small_tree,
        of "[''home'', ''user'']" "[''tmp'']"] m
    by auto
qed

end
